theory Spec2Isabelle
  imports Main
begin

unbundle bit_operations_syntax

section \<open>The command console of \<open>core/common/commands.cpp\<close>\<close>

text \<open>
  The console takes one command line, splits it into words (\<open>command_words\<close>), looks the
  first word up in a fixed chain of names (\<open>Commands::system\<close>) and runs the handler of
  that name, which writes to a stream. The functions below follow the C++ text function
  by function. A \<open>std::string\<close> is a list of bytes (\<open>string\<close>), a \<open>std::vector\<close> a list,
  a \<open>std::map<std::string, bool>\<close> a partial function, and a C++ exception is a value
  returned in place of the result.
\<close>

subsection \<open>Exceptions\<close>

text \<open>
  \<open>FormatException\<close> is what \<open>command_words\<close> throws. \<open>GeneralException\<close> stands for every
  other exception that a \<open>catch (GeneralException&)\<close> clause catches, and
  \<open>OtherException\<close> for one that such a clause lets through (\<open>std::bad_alloc\<close>, say).
  The classes are declared in a header that is not part of the file; that
  \<open>FormatException\<close> derives from \<open>GeneralException\<close> is what makes the dispatcher print
  the tokenizer's message.
\<close>

datatype exn =
    FormatException string
  | GeneralException string
  | OtherException string

fun what :: "exn \<Rightarrow> string" where
  "what (FormatException m) = m"
| "what (GeneralException m) = m"
| "what (OtherException m) = m"

fun is_GeneralException :: "exn \<Rightarrow> bool" where
  "is_GeneralException (FormatException m) = True"
| "is_GeneralException (GeneralException m) = True"
| "is_GeneralException (OtherException m) = False"

subsection \<open>Characters\<close>

definition SP :: char where "SP = CHR 0x20"
definition DQ :: char where "DQ = CHR 0x22"
definition BS :: char where "BS = CHR 0x5C"
definition SQ :: char where "SQ = CHR 0x27"
definition NUL :: char where "NUL = CHR 0x00"
definition LF :: char where "LF = CHR 0x0A"

text \<open>
  \<open>s.c_str()\<close> handed to a \<open>%s\<close> of a format: the bytes of \<open>s\<close> up to its first NUL.
\<close>

definition c_str :: "string \<Rightarrow> string" where
  "c_str s = takeWhile (\<lambda>c. c \<noteq> NUL) s"

text \<open>\<open>%d\<close> of a number that is not negative.\<close>

definition digit :: "nat \<Rightarrow> char" where
  "digit n = ''0123456789'' ! n"

fun dec :: "nat \<Rightarrow> string" where
  "dec n = (if n < 10 then [digit n] else dec (n div 10) @ [digit (n mod 10)])"

declare dec.simps [simp del]

text \<open>\<open>%-20s\<close> and the like: the text, filled with spaces on the right up to the width.\<close>

definition pad :: "nat \<Rightarrow> string \<Rightarrow> string" where
  "pad n s = s @ replicate (n - length s) SP"

text \<open>
  Modelled from the spec: \<open>str::join\<close>, which is defined outside the file; the spec
  describes its use as joining the words with single spaces.
\<close>

fun join :: "string \<Rightarrow> string list \<Rightarrow> string" where
  "join sep [] = []"
| "join sep [x] = x"
| "join sep (x # y # ys) = x @ sep @ join sep (y # ys)"

subsection \<open>\<open>parse_options\<close>\<close>

text \<open>
  The \<open>for\<close> loop over \<open>args\<close>, with the locals \<open>options\<close> and \<open>positionals\<close>. At
  \<open>--\<close> the inner loop copies the arguments behind it and \<open>break\<close> ends the scan.
\<close>

fun parse_options_loop ::
  "string list \<Rightarrow> string list \<Rightarrow> (string \<rightharpoonup> bool) \<Rightarrow> string list \<Rightarrow> (string \<rightharpoonup> bool) \<times> string list" where
  "parse_options_loop [] option_names options positionals = (options, positionals)"
| "parse_options_loop (a # args) option_names options positionals =
     (if a = ''--'' then (options, positionals @ args)
      else if a \<in> set option_names then
        parse_options_loop args option_names (options(a \<mapsto> True)) positionals
      else parse_options_loop args option_names options (positionals @ [a]))"

definition parse_options :: "string list \<Rightarrow> string list \<Rightarrow> (string \<rightharpoonup> bool) \<times> string list" where
  "parse_options args option_names = parse_options_loop args option_names Map.empty []"

subsection \<open>\<open>command_words\<close>\<close>

text \<open>
  The iterator \<open>p\<close> is modelled by the part of the command line from \<open>p\<close> to the end:
  \<open>p == cmdline.end()\<close> is the empty list, \<open>*p\<close> is the head and \<open>p++\<close> the tail.

  \<open>skip_spaces\<close> is the loop \<open>do { p++; } while (*p == ' ');\<close> after its first \<open>p++\<close>.
  The loop tests \<open>*p\<close> without asking whether \<open>p\<close> is the end. The first equation is
  that case: the position holds no character of the line, and the read is one position
  past the last character. There a \<open>std::string\<close> holds its terminating NUL, which is
  not a space, so the loop stops. The second component of the result records that this
  read happened.
\<close>

fun skip_spaces :: "string \<Rightarrow> string \<times> bool" where
  "skip_spaces [] = ([], True)"
| "skip_spaces (c # cs) = (if c = SP then skip_spaces cs else (c # cs, False))"

text \<open>
  \<open>quoted\<close> is the \<open>while (true)\<close> loop that runs after an opening quote, started
  behind the quote. It ends by \<open>break\<close> at the closing quote, with the word to push and
  the position of that quote, or by one of the two exceptions.
\<close>

fun quoted :: "string \<Rightarrow> string \<Rightarrow> exn + (string \<times> string)" where
  "quoted [] word = Inl (FormatException ''Premature end of quoted string'')"
| "quoted (c # cs) word =
     (if c = BS then
        (case cs of
           [] \<Rightarrow> Inl (FormatException ''Premature end of escaped character'')
         | d # ds \<Rightarrow> quoted ds (word @ [d]))
      else if c = DQ then Inr (word, c # cs)
      else quoted cs (word @ [c]))"

lemma skip_spaces_length: "skip_spaces cs = (p, r) \<Longrightarrow> length p \<le> length cs"
  by (induction cs) (auto split: if_splits)

lemma quoted_length: "quoted cs word = Inr (w, p) \<Longrightarrow> length p \<le> length cs"
proof (induction cs word rule: quoted.induct)
  case (1 word)
  then show ?case by simp
next
  case (2 c cs word)
  then show ?case
    by (cases cs) (auto split: if_splits)
qed

text \<open>
  The outer \<open>while (p != cmdline.end())\<close> loop, with the locals \<open>word\<close> and \<open>words\<close> and
  the record of a read past the end. After the loop the last word is pushed if it is
  not empty.
\<close>

function words_loop :: "string \<Rightarrow> string \<Rightarrow> string list \<Rightarrow> bool \<Rightarrow> bool \<times> (exn + string list)" where
  "words_loop [] word words past = (past, Inr (if word \<noteq> [] then words @ [word] else words))"
| "words_loop (c # cs) word words past =
     (if c = SP then
        (case skip_spaces cs of
           (p, r) \<Rightarrow>
             if word \<noteq> [] then words_loop p [] (words @ [word]) (past \<or> r)
             else words_loop p word words (past \<or> r))
      else if c = DQ then
        (case quoted cs word of
           Inl e \<Rightarrow> (past, Inl e)
         | Inr (w, p) \<Rightarrow> words_loop (tl p) [] (words @ [w]) past)
      else words_loop cs (word @ [c]) words past)"
  by pat_completeness auto
termination
proof (relation "measure (\<lambda>(p, word, words, past). length p)")
  show "wf (measure (\<lambda>(p, word, words, past). length p))"
    by simp
qed (auto simp: less_Suc_eq_le dest: skip_spaces_length [OF sym] quoted_length)

definition command_words :: "string \<Rightarrow> exn + string list" where
  "command_words cmdline = snd (words_loop cmdline [] [] False)"

definition command_words_past_end :: "string \<Rightarrow> bool" where
  "command_words_past_end cmdline = fst (words_loop cmdline [] [] False)"

text \<open>
  Two views of the loop for the proofs: \<open>tokens p word\<close> is what the loop returns when
  it stands at \<open>p\<close> with \<open>word\<close> pending and no words pushed yet, and \<open>prepend\<close> puts the
  words pushed before in front of such a result.
\<close>

definition tokens :: "string \<Rightarrow> string \<Rightarrow> exn + string list" where
  "tokens p word = snd (words_loop p word [] False)"

fun prepend :: "string list \<Rightarrow> exn + string list \<Rightarrow> exn + string list" where
  "prepend ws (Inl e) = Inl e"
| "prepend ws (Inr xs) = Inr (ws @ xs)"

subsection \<open>The stream and the collaborators\<close>

text \<open>
  Modelled from the spec: the output sink (\<open>Stream\<close>, declared outside the file) with
  \<open>writeLine\<close>, \<open>writeLineF\<close> and \<open>writeString\<close>, where the line-oriented writes append a
  line terminator and the raw writes do not. The stream is the list of what was written
  to it: \<open>Line text\<close> for a line-oriented write (the text, then the terminator) and
  \<open>Raw text\<close> for a raw one. The formatted writes \<open>writeLineF\<close> and \<open>writeStringF\<close> are
  \<open>writeLine\<close> and \<open>writeString\<close> of the formatted text. A write that throws is part of
  the model where a loop writes, in the drain of \<open>log\<close>; there the schedule says which
  write the stream refuses.
\<close>

datatype out = Line string | Raw string

type_synonym ip = nat

datatype ltype = T_ERROR | T_WARN | T_OTHER nat

text \<open>
  The calls that leave the file for a service of the process or of the network. A
  handler records them in the order in which it makes them.
\<close>

datatype call =
    HttpGet string
  | GetHostnameByAddress ip
  | GetIPAddresses string
  | AddListener nat
  | RemoveListener nat
  | Sleep nat
  | HostFromString string
  | CreateSocket
  | SetReadTimeout nat
  | SockOpen string
  | SockConnect
  | WriteConnect
  | HandshakeOutgoingPCP
  | WriteQuit
  | SockClose

record world =
  out :: "out list"
  calls :: "call list"
  listeners :: "nat list"
  aux_log :: nat

text \<open>
  \<open>out\<close> is the stream, \<open>calls\<close> the calls made so far, \<open>listeners\<close> the ids registered
  with \<open>sys->logBuf\<close>, and \<open>aux_log\<close> the size of \<open>AUX_LOG_FUNC_VECTOR\<close>.
\<close>

definition writeLine :: "string \<Rightarrow> world \<Rightarrow> world" where
  "writeLine text w = w\<lparr>out := out w @ [Line text]\<rparr>"

definition writeString :: "string \<Rightarrow> world \<Rightarrow> world" where
  "writeString text w = w\<lparr>out := out w @ [Raw text]\<rparr>"

definition called :: "call \<Rightarrow> world \<Rightarrow> world" where
  "called c w = w\<lparr>calls := calls w @ [c]\<rparr>"

text \<open>
  What a call made by \<open>helo\<close> does: the messages it logs on the way, the exception it
  ends with if any, and the bytes it sends and receives on the socket.
\<close>

record answer =
  logged :: "(ltype \<times> string) list"
  raised :: "exn option"
  wrote :: string
  readb :: string

record serv_filter =
  pattern :: string
  flags :: nat

text \<open>
  The collaborators, none of which is defined in the file: what they answer is a
  parameter of every handler. A call that can throw answers with an exception or a
  value. \<open>channel\<close> lists name, id and status of the channels of \<open>chanMgr\<close>, \<open>filters\<close>
  the first \<open>numFilters\<close> entries of \<open>servMgr->filters\<close>.
\<close>

record env =
  getTypeStr :: "ltype \<Rightarrow> string"
  http_get :: "string \<Rightarrow> exn + string"
  tryParse :: "string \<Rightarrow> ip option"
  getHostnameByAddress :: "ip \<Rightarrow> exn + string option"
  getIPAddresses :: "string \<Rightarrow> exn + string list"
  channel :: "(string \<times> string \<times> string) list"
  filters :: "serv_filter list"
  F_BAN :: nat
  F_NETWORK :: nat
  F_DIRECT :: nat
  F_PRIVATE :: nat
  host_str :: "string \<Rightarrow> string"
  remote_id :: string
  remote_agent :: string
  answer :: "call \<Rightarrow> answer"
  ascii_dump :: "string \<Rightarrow> string"
  hexdump :: "string \<Rightarrow> string"

text \<open>
  A handler returns normally (\<open>None\<close>) or with an exception in flight (\<open>Some e\<close>), and
  with the state it has reached.
\<close>

type_synonym result = "exn option \<times> world"

text \<open>
  The cancellation predicate is polled again and again while other threads run, so its
  model is a schedule: one \<open>tick\<close> for every poll, in order. \<open>cancel_result\<close> is what
  the poll gives (\<open>cancel\<close> is a \<open>std::function\<close> and may throw) and \<open>sleep_result\<close>
  what \<open>sys->sleep\<close> does after the poll. \<open>pushed\<close> lists the log events that a
  registered listener is handed after the drain of the tick before (for the first tick,
  after it is registered) and before the drain of this tick, or before the loop is left
  if this tick ends it. \<open>write_fails\<close> says what the stream does to the writes of the
  drain of this tick: \<open>None\<close> when it takes every chunk, \<open>Some (k, e)\<close> when it takes
  the first \<open>k\<close> chunks and \<open>stream.writeString\<close> throws \<open>e\<close> at the next one, of which
  nothing reaches the stream. A handler that is still polling when the schedule ends
  has not returned: its result is \<open>None\<close>.
\<close>

record tick =
  pushed :: "(ltype \<times> string) list"
  cancel_result :: "exn + bool"
  write_fails :: "(nat \<times> exn) option"
  sleep_result :: "exn option"

type_synonym handler = "string list \<Rightarrow> tick list \<Rightarrow> world \<Rightarrow> result option"

subsection \<open>\<open>Commands::echo\<close>\<close>

text \<open>The counter \<open>i\<close> is an \<open>int\<close> in the source; it counts the words from 1.\<close>

fun echo_lines :: "nat \<Rightarrow> string list \<Rightarrow> world \<Rightarrow> world" where
  "echo_lines i [] w = w"
| "echo_lines i (word # rest) w =
     echo_lines (i + 1) rest (writeLine (''['' @ dec i @ ''] '' @ c_str word) w)"

definition echo :: "env \<Rightarrow> handler" where
  "echo env argv cancel w =
     (case parse_options argv [''-v''] of
        (options, positionals) \<Rightarrow>
          if options ''-v'' \<noteq> None then Some (None, echo_lines 1 positionals w)
          else Some (None, writeLine (c_str (join '' '' positionals)) w))"

subsection \<open>\<open>Commands::chan\<close>\<close>

fun chan_loop :: "(string \<times> string \<times> string) list \<Rightarrow> world \<Rightarrow> world" where
  "chan_loop [] w = w"
| "chan_loop ((name, ident, status) # rest) w =
     chan_loop rest (writeLine (c_str name @ '' '' @ c_str ident @ '' '' @ c_str status) w)"

definition chan :: "env \<Rightarrow> handler" where
  "chan env argv cancel w = Some (None, chan_loop (channel env) w)"

subsection \<open>\<open>Commands::get\<close>\<close>

definition get :: "env \<Rightarrow> handler" where
  "get env argv cancel w =
     (if length argv \<noteq> 1 then Some (None, writeLine ''Usage: get URL'' w)
      else
        (case http_get env (argv ! 0) of
           Inl e \<Rightarrow>
             if is_GeneralException e then
               Some (None, writeString (''Error: '' @ what e) (called (HttpGet (argv ! 0)) w))
             else Some (Some e, called (HttpGet (argv ! 0)) w)
         | Inr body \<Rightarrow> Some (None, writeString body (called (HttpGet (argv ! 0)) w))))"

subsection \<open>\<open>Commands::filter\<close>\<close>

definition filter_labels :: "env \<Rightarrow> nat \<Rightarrow> string list" where
  "filter_labels env fl =
     (if fl AND F_BAN env \<noteq> 0 then [''banned''] else []) @
     (if fl AND F_NETWORK env \<noteq> 0 then [''network''] else []) @
     (if fl AND F_DIRECT env \<noteq> 0 then [''direct''] else []) @
     (if fl AND F_PRIVATE env \<noteq> 0 then [''private''] else [])"

fun filter_show :: "env \<Rightarrow> serv_filter list \<Rightarrow> world \<Rightarrow> world" where
  "filter_show env [] w = w"
| "filter_show env (f # rest) w =
     filter_show env rest
       (writeLine (pad 20 (c_str (pattern f)) @ '' '' @ c_str (join '' '' (filter_labels env (flags f)))) w)"

definition filter_cmd :: "env \<Rightarrow> handler" where
  "filter_cmd env argv cancel w =
     (if length argv < 1 then
        Some (None, writeLine ''       filter ban TARGET'' (writeLine ''Usage: filter show'' w))
      else if argv ! 0 = ''show'' then Some (None, filter_show env (filters env) w)
      else if argv ! 0 = ''ban'' then Some (None, writeLine ''not implemented yet'' w)
      else Some (None, writeLine (''Unknown subcommand '' @ [SQ] @ c_str (argv ! 0) @ [SQ]) w))"

subsection \<open>\<open>Commands::log\<close>\<close>

text \<open>
  Modelled from the spec: the event source \<open>sys->logBuf\<close> (declared outside the file)
  with \<open>addListener(callback) -> subscriptionId\<close> and \<open>removeListener(subscriptionId)\<close>.
  \<open>addListener\<close> registers under an id that is not in use and returns it;
  \<open>removeListener\<close> takes the id out of the registered ones.
\<close>

definition fresh :: "nat list \<Rightarrow> nat" where
  "fresh ids = Suc (foldr max ids 0)"

definition addListener :: "world \<Rightarrow> nat \<times> world" where
  "addListener w =
     (fresh (listeners w),
      called (AddListener (fresh (listeners w))) (w\<lparr>listeners := listeners w @ [fresh (listeners w)]\<rparr>))"

definition removeListener :: "nat \<Rightarrow> world \<Rightarrow> world" where
  "removeListener i w = called (RemoveListener i) (w\<lparr>listeners := removeAll i (listeners w)\<rparr>)"

text \<open>
  The listener: it formats one event as \<open>[%s] %s\n\<close> and pushes the chunk on the queue.
\<close>

definition callback :: "env \<Rightarrow> ltype \<times> string \<Rightarrow> string" where
  "callback env ev = ''['' @ getTypeStr env (fst ev) @ ''] '' @ snd ev @ [LF]"

text \<open>
  The inner loop \<open>while (!queue.empty())\<close>: write the front chunk, pop it. The first
  argument is what the stream does to these writes (\<open>write_fails\<close> of the tick). When a
  write throws, the loop is left with the exception, and the chunk that was not written
  and those behind it stay on the queue.
\<close>

fun drain :: "(nat \<times> exn) option \<Rightarrow> string list \<Rightarrow> world \<Rightarrow> exn option \<times> string list \<times> world" where
  "drain f [] w = (None, [], w)"
| "drain f (chunk # queue) w =
     (case f of
        None \<Rightarrow> drain None queue (writeString chunk w)
      | Some (0, e) \<Rightarrow> (Some e, chunk # queue, w)
      | Some (Suc k, e) \<Rightarrow> drain (Some (k, e)) queue (writeString chunk w))"

text \<open>
  The loop \<open>while (!cancel())\<close> with the local \<open>queue\<close>. The listener and the inner loop
  hold the same lock, so a push falls before or after a whole drain, never into it: the
  events of a tick are on the queue when its drain begins. The loop ends when the poll
  answers true or when the poll, a write of the drain or the sleep throws; it returns
  the queue as it is then, which is a local of the handler and is destroyed with it.
\<close>

fun log_loop :: "env \<Rightarrow> tick list \<Rightarrow> string list \<Rightarrow> world \<Rightarrow> (exn option \<times> string list \<times> world) option" where
  "log_loop env [] queue w = None"
| "log_loop env (t # cancel) queue w =
     (case cancel_result t of
        Inl e \<Rightarrow> Some (Some e, queue @ map (callback env) (pushed t), w)
      | Inr True \<Rightarrow> Some (None, queue @ map (callback env) (pushed t), w)
      | Inr False \<Rightarrow>
          (case drain (write_fails t) (queue @ map (callback env) (pushed t)) w of
             (Some e, queue', w') \<Rightarrow> Some (Some e, queue', w')
           | (None, queue', w') \<Rightarrow>
               (case sleep_result t of
                  Some e \<Rightarrow> Some (Some e, queue', called (Sleep 100) w')
                | None \<Rightarrow> log_loop env cancel queue' (called (Sleep 100) w'))))"

text \<open>
  The handler: register the listener, run the loop, and on the way out, however the loop
  has ended, run the deferred \<open>removeListener(id)\<close>.
\<close>

definition log :: "env \<Rightarrow> handler" where
  "log env argv cancel w =
     (case addListener w of
        (i, w1) \<Rightarrow>
          (case log_loop env cancel [] w1 of
             None \<Rightarrow> None
           | Some (r, queue, w2) \<Rightarrow> Some (r, removeListener i w2)))"

subsection \<open>\<open>Commands::nslookup\<close>\<close>

fun write_lines :: "string list \<Rightarrow> world \<Rightarrow> world" where
  "write_lines [] w = w"
| "write_lines (l # ls) w = write_lines ls (writeLine l w)"

definition nslookup :: "env \<Rightarrow> handler" where
  "nslookup env argv cancel w =
     (if length argv \<noteq> 1 then Some (None, writeLine ''Usage: nslookup NAME'' w)
      else
        (case tryParse env (argv ! 0) of
           Some a \<Rightarrow>
             (case getHostnameByAddress env a of
                Inl e \<Rightarrow> Some (Some e, called (GetHostnameByAddress a) w)
              | Inr (Some name) \<Rightarrow> Some (None, writeLine name (called (GetHostnameByAddress a) w))
              | Inr None \<Rightarrow>
                  Some (None,
                    writeLine (''Error: '' @ [SQ] @ c_str (argv ! 0) @ [SQ] @ '' not found'')
                      (called (GetHostnameByAddress a) w)))
         | None \<Rightarrow>
             (case getIPAddresses env (argv ! 0) of
                Inl e \<Rightarrow>
                  if is_GeneralException e then
                    Some (None,
                      writeLine (''Error: '' @ [SQ] @ c_str (argv ! 0) @ [SQ] @ '' not found: '' @ what e)
                        (called (GetIPAddresses (argv ! 0)) w))
                  else Some (Some e, called (GetIPAddresses (argv ! 0)) w)
              | Inr ips \<Rightarrow> Some (None, write_lines ips (called (GetIPAddresses (argv ! 0)) w)))))"

subsection \<open>\<open>Commands::helo\<close>\<close>

text \<open>
  Behind the check of the arguments the handler talks to a remote host through classes
  that are declared outside the file (\<open>Host\<close>, the socket of \<open>sys\<close>, \<open>CopyingStream\<close>,
  \<open>AtomStream\<close>, \<open>Servent\<close>). Each of these calls is one \<open>call\<close>, and what it does is the
  \<open>answer\<close> of the environment. \<open>AUX_LOG_FUNC_VECTOR\<close> is taken to be set, as the
  assertion demands.

  The function pushed on \<open>AUX_LOG_FUNC_VECTOR\<close>: it writes a logged message as a line,
  behind \<open>Error: \<close> or \<open>Warning: \<close> for these two types.
\<close>

definition aux_log_func :: "ltype \<times> string \<Rightarrow> world \<Rightarrow> world" where
  "aux_log_func ev w =
     writeLine (snd ev)
       (if fst ev = T_ERROR then writeString ''Error: '' w
        else if fst ev = T_WARN then writeString ''Warning: '' w
        else w)"

fun aux_log_all :: "(ltype \<times> string) list \<Rightarrow> world \<Rightarrow> world" where
  "aux_log_all [] w = w"
| "aux_log_all (ev # evs) w = aux_log_all evs (aux_log_func ev w)"

text \<open>
  One call inside the \<open>try\<close> block: it is recorded, its messages go through the function
  above, and it returns or throws.
\<close>

definition external :: "env \<Rightarrow> call \<Rightarrow> world \<Rightarrow> result" where
  "external env c w = (raised (answer env c), aux_log_all (logged (answer env c)) (called c w))"

text \<open>
  The second deferred function of the block (\<open>defer2\<close>), given \<open>cs.dataWritten\<close> and
  \<open>cs.dataRead\<close>.
\<close>

definition dump :: "env \<Rightarrow> (string \<rightharpoonup> bool) \<Rightarrow> string \<Rightarrow> string \<Rightarrow> world \<Rightarrow> world" where
  "dump env options dataWritten dataRead w =
     (if options ''-v'' \<noteq> None then
        (let w1 = writeLine (''--- '' @ dec (length dataWritten) @ '' bytes written'') w;
             w2 = (if length dataWritten \<noteq> 0 then
                     writeLine (hexdump env dataWritten) (writeLine (ascii_dump env dataWritten) w1)
                   else w1);
             w3 = writeLine (''--- '' @ dec (length dataRead) @ '' bytes read'') w2
         in if length dataRead \<noteq> 0 then
              writeLine (hexdump env dataRead) (writeLine (ascii_dump env dataRead) w3)
            else w3)
      else w)"

text \<open>
  The block from \<open>CopyingStream cs(sock.get())\<close> to its end, without \<open>defer2\<close>: the result
  and the bytes that \<open>cs\<close> has copied when the block is left.
\<close>

definition helo_exchange :: "env \<Rightarrow> world \<Rightarrow> result \<times> string \<times> string" where
  "helo_exchange env w =
     (case external env WriteConnect w of
        (Some e, w1) \<Rightarrow> ((Some e, w1), wrote (answer env WriteConnect), readb (answer env WriteConnect))
      | (None, w1) \<Rightarrow>
          (case external env HandshakeOutgoingPCP w1 of
             (Some e, w2) \<Rightarrow>
               ((Some e, w2),
                wrote (answer env WriteConnect) @ wrote (answer env HandshakeOutgoingPCP),
                readb (answer env WriteConnect) @ readb (answer env HandshakeOutgoingPCP))
           | (None, w2) \<Rightarrow>
               (case external env WriteQuit
                       (writeLine (''Remote agent: '' @ c_str (remote_agent env))
                          (writeLine (''Remote ID: '' @ c_str (remote_id env)) w2)) of
                  (Some e, w3) \<Rightarrow>
                    ((Some e, w3),
                     wrote (answer env WriteConnect) @ wrote (answer env HandshakeOutgoingPCP)
                       @ wrote (answer env WriteQuit),
                     readb (answer env WriteConnect) @ readb (answer env HandshakeOutgoingPCP)
                       @ readb (answer env WriteQuit))
                | (None, w3) \<Rightarrow>
                    (case external env SockClose w3 of
                       (r, w4) \<Rightarrow>
                         ((r, if r = None then writeLine ''OK'' w4 else w4),
                          wrote (answer env WriteConnect) @ wrote (answer env HandshakeOutgoingPCP)
                            @ wrote (answer env WriteQuit),
                          readb (answer env WriteConnect) @ readb (answer env HandshakeOutgoingPCP)
                            @ readb (answer env WriteQuit))))))"

text \<open>The calls of the block before \<open>cs\<close> exists, which end at the first that throws.\<close>

fun externals :: "env \<Rightarrow> call list \<Rightarrow> world \<Rightarrow> result" where
  "externals env [] w = (None, w)"
| "externals env (c # cs) w =
     (case external env c w of
        (Some e, w1) \<Rightarrow> (Some e, w1)
      | (None, w1) \<Rightarrow> externals env cs w1)"

text \<open>The \<open>try\<close> block with its two deferred functions, without the \<open>catch\<close>.\<close>

definition helo_try :: "env \<Rightarrow> (string \<rightharpoonup> bool) \<Rightarrow> string \<Rightarrow> world \<Rightarrow> result" where
  "helo_try env options target w =
     (case external env (HostFromString target) (w\<lparr>aux_log := aux_log w + 1\<rparr>) of
        (Some e, w1) \<Rightarrow> (Some e, w1\<lparr>aux_log := aux_log w1 - 1\<rparr>)
      | (None, w1) \<Rightarrow>
          (case externals env
                  [CreateSocket, SetReadTimeout 30000, SockOpen (host_str env target), SockConnect]
                  (writeLine (''HELO '' @ c_str (host_str env target)) w1) of
             (Some e, w2) \<Rightarrow> (Some e, w2\<lparr>aux_log := aux_log w2 - 1\<rparr>)
           | (None, w2) \<Rightarrow>
               (case helo_exchange env w2 of
                  ((r, w3), dataWritten, dataRead) \<Rightarrow>
                    (r, (dump env options dataWritten dataRead w3)
                          \<lparr>aux_log := aux_log (dump env options dataWritten dataRead w3) - 1\<rparr>))))"

definition helo :: "env \<Rightarrow> handler" where
  "helo env argv cancel w =
     (case parse_options argv [''-v''] of
        (options, positionals) \<Rightarrow>
          if length positionals \<noteq> 1 then Some (None, writeLine ''Usage: helo [-v] HOST'' w)
          else
            (case helo_try env options (positionals ! 0) w of
               (Some e, w1) \<Rightarrow>
                 if is_GeneralException e then Some (None, writeLine (''Error: '' @ what e) w1)
                 else Some (Some e, w1)
             | (None, w1) \<Rightarrow> Some (None, w1)))"

subsection \<open>\<open>Commands::system\<close>\<close>

text \<open>The \<open>try\<close> block of the dispatcher.\<close>

definition system_try :: "env \<Rightarrow> string \<Rightarrow> tick list \<Rightarrow> world \<Rightarrow> result option" where
  "system_try env cmdline cancel w =
     (case command_words cmdline of
        Inl e \<Rightarrow> Some (Some e, w)
      | Inr words \<Rightarrow>
          if length words = 0 then Some (None, writeLine ''Error: Empty command line'' w)
          else if hd words = ''log'' then log env (tl words) cancel w
          else if hd words = ''nslookup'' then nslookup env (tl words) cancel w
          else if hd words = ''helo'' then helo env (tl words) cancel w
          else if hd words = ''filter'' then filter_cmd env (tl words) cancel w
          else if hd words = ''get'' then get env (tl words) cancel w
          else if hd words = ''chan'' then chan env (tl words) cancel w
          else if hd words = ''echo'' then echo env (tl words) cancel w
          else
            Some (None,
              writeLine (''Error: No such command '' @ [SQ] @ c_str (hd words) @ [SQ]) w))"

text \<open>
  The dispatcher: the block above, and the clause \<open>catch (GeneralException& e)\<close>, which
  writes the message as a line and returns. Any other exception passes.
\<close>

definition system :: "env \<Rightarrow> string \<Rightarrow> tick list \<Rightarrow> world \<Rightarrow> result option" where
  "system env cmdline cancel w =
     (case system_try env cmdline cancel w of
        None \<Rightarrow> None
      | Some (None, w1) \<Rightarrow> Some (None, w1)
      | Some (Some e, w1) \<Rightarrow>
          if is_GeneralException e then Some (None, writeLine (''Error: '' @ what e) w1)
          else Some (Some e, w1))"

section \<open>What the specification speaks of\<close>

text \<open>
  The definitions of this section are not taken from the code. They say in the words of
  the specification what the theorems below compare the code with.
\<close>

subsection \<open>Quoting\<close>

text \<open>
  Where a scan of the command line stands with respect to quoting: outside a quoted
  region, inside one, or inside one and directly behind a backslash. \<open>quote_state\<close> is
  where the scan stands at the end of the input.
\<close>

datatype qstate = Outside | InQuote | InEscape

fun qstep :: "qstate \<Rightarrow> char \<Rightarrow> qstate" where
  "qstep Outside c = (if c = DQ then InQuote else Outside)"
| "qstep InQuote c = (if c = BS then InEscape else if c = DQ then Outside else InQuote)"
| "qstep InEscape c = InQuote"

definition quote_state :: "string \<Rightarrow> qstate" where
  "quote_state cmdline = foldl qstep Outside cmdline"

text \<open>
  What the tokenizer is to return for each of the three: words, or one of the two
  failures.
\<close>

fun outcome_for :: "qstate \<Rightarrow> exn + string list \<Rightarrow> bool" where
  "outcome_for Outside r = (\<exists>ws. r = Inr ws)"
| "outcome_for InQuote r = (r = Inl (FormatException ''Premature end of quoted string''))"
| "outcome_for InEscape r = (r = Inl (FormatException ''Premature end of escaped character''))"

text \<open>
  The content of a quoted region, given the characters between its two quotes: a
  backslash makes the character behind it literal. There is no content when the
  characters hold a quote that is not escaped, or end in a lone backslash.
\<close>

fun unescape :: "string \<Rightarrow> string option" where
  "unescape [] = Some []"
| "unescape (c # cs) =
     (if c = BS then
        (case cs of [] \<Rightarrow> None | d # ds \<Rightarrow> map_option ((#) d) (unescape ds))
      else if c = DQ then None
      else map_option ((#) c) (unescape cs))"

text \<open>
  A word that the tokenizer reads back as itself when it stands unquoted between spaces:
  it is not empty and holds neither a space nor a quote.
\<close>

definition plain_word :: "string \<Rightarrow> bool" where
  "plain_word t = (t \<noteq> [] \<and> SP \<notin> set t \<and> DQ \<notin> set t)"

subsection \<open>Arguments\<close>

text \<open>The arguments before the first \<open>--\<close>, and those behind it.\<close>

definition before_terminator :: "string list \<Rightarrow> string list" where
  "before_terminator args = takeWhile (\<lambda>a. a \<noteq> ''--'') args"

definition after_terminator :: "string list \<Rightarrow> string list" where
  "after_terminator args = tl (dropWhile (\<lambda>a. a \<noteq> ''--'') args)"

subsection \<open>The dispatch table\<close>


subsection \<open>Schedules\<close>

text \<open>
  Whether a write of the drain of a tick throws: the stream refuses the chunk behind the
  first \<open>k\<close>, and the tick has brought more than \<open>k\<close> chunks.
\<close>

definition write_raises :: "tick \<Rightarrow> exn option" where
  "write_raises t =
     (case write_fails t of
        None \<Rightarrow> None
      | Some (k, e) \<Rightarrow> if k < length (pushed t) then Some e else None)"

text \<open>
  A tick after which the loop of \<open>log\<close> goes on: the poll answers false, no write throws
  and the sleep returns. At any other tick the loop is left: \<open>loop_exit\<close> is how (with
  the exception thrown, or normally when the poll has answered true), and \<open>last_drain\<close>
  lists the chunks that the tick itself still brings to the stream, which are none when
  the poll ends the loop, those before the refused one when a write throws, and all of
  the tick when the sleep throws. \<open>is_listener_call\<close> picks the calls to the event
  source out of a record of calls.
\<close>

definition continues :: "tick \<Rightarrow> bool" where
  "continues t = (cancel_result t = Inr False \<and> write_raises t = None \<and> sleep_result t = None)"

definition loop_exit :: "tick \<Rightarrow> exn option" where
  "loop_exit t =
     (case cancel_result t of
        Inl e \<Rightarrow> Some e
      | Inr b \<Rightarrow>
          if b then None
          else (case write_raises t of Some e \<Rightarrow> Some e | None \<Rightarrow> sleep_result t))"

definition last_drain :: "env \<Rightarrow> tick \<Rightarrow> string list" where
  "last_drain env t =
     (if cancel_result t = Inr False then
        (case write_fails t of
           None \<Rightarrow> map (callback env) (pushed t)
         | Some (k, e) \<Rightarrow> take k (map (callback env) (pushed t)))
      else [])"

fun is_listener_call :: "call \<Rightarrow> bool" where
  "is_listener_call (AddListener i) = True"
| "is_listener_call (RemoveListener i) = True"
| "is_listener_call c = False"

subsection \<open>An environment for the examples\<close>

text \<open>
  Collaborators that fail where they can: no page is fetched, no name resolved. The
  remote host of \<open>helo\<close> answers at once and logs nothing.
\<close>

definition env0 :: env where
  "env0 =
     \<lparr>getTypeStr = (\<lambda>t. case t of T_ERROR \<Rightarrow> ''EROR'' | T_WARN \<Rightarrow> ''WARN'' | T_OTHER n \<Rightarrow> ''INFO''),
      http_get = (\<lambda>url. Inl (GeneralException ''connection refused'')),
      tryParse = (\<lambda>s. None),
      getHostnameByAddress = (\<lambda>a. Inr None),
      getIPAddresses = (\<lambda>name. Inl (GeneralException ''no address'')),
      channel = [],
      filters = [],
      F_BAN = 1, F_NETWORK = 2, F_DIRECT = 4, F_PRIVATE = 8,
      host_str = (\<lambda>target. target @ '':7144''),
      remote_id = ''00000000000000000000000000000000'',
      remote_agent = ''agent'',
      answer = (\<lambda>c. \<lparr>logged = [], raised = None, wrote = [], readb = []\<rparr>),
      ascii_dump = (\<lambda>s. s),
      hexdump = (\<lambda>s. s)\<rparr>"

definition w0 :: world where
  "w0 = \<lparr>out = [], calls = [], listeners = [], aux_log = 0\<rparr>"

text \<open>
  Five ticks. Two events arrive and the loop goes on. One event arrives and the poll
  answers true. The poll throws. Two events arrive, the poll answers false and the
  stream takes the first chunk and refuses the second. One event arrives, the poll
  answers false and the sleep throws.
\<close>

definition tick_go :: tick where
  "tick_go =
     \<lparr>pushed = [(T_ERROR, ''a''), (T_WARN, ''b'')], cancel_result = Inr False,
      write_fails = None, sleep_result = None\<rparr>"

definition tick_stop :: tick where
  "tick_stop =
     \<lparr>pushed = [(T_ERROR, ''c'')], cancel_result = Inr True, write_fails = None,
      sleep_result = None\<rparr>"

definition tick_throw :: tick where
  "tick_throw =
     \<lparr>pushed = [], cancel_result = Inl (GeneralException ''gone''), write_fails = None,
      sleep_result = None\<rparr>"

definition tick_refuse :: tick where
  "tick_refuse =
     \<lparr>pushed = [(T_ERROR, ''c''), (T_WARN, ''d'')], cancel_result = Inr False,
      write_fails = Some (1, GeneralException ''closed''), sleep_result = None\<rparr>"

definition tick_wake :: tick where
  "tick_wake =
     \<lparr>pushed = [(T_OTHER 0, ''e'')], cancel_result = Inr False, write_fails = None,
      sleep_result = Some (GeneralException ''woken'')\<rparr>"

section \<open>Properties of the tokenizer\<close>

subsection \<open>The loop, unfolded\<close>

text \<open>
  The words pushed so far and the record of a read past the end are accumulators: the
  loop started with any of them differs from the loop started with none only by what
  was there at the start. This gives plain recursion equations for \<open>tokens\<close>.
\<close>

lemma chars_distinct [simp]:
  "SP \<noteq> DQ" "DQ \<noteq> SP" "SP \<noteq> BS" "BS \<noteq> SP" "DQ \<noteq> BS" "BS \<noteq> DQ"
  by (simp_all add: SP_def DQ_def BS_def)

lemma prepend_Nil [simp]: "prepend [] r = r"
  by (cases r) auto

lemma prepend_prepend [simp]: "prepend a (prepend b r) = prepend (a @ b) r"
  by (cases r) auto

lemma words_loop_acc:
  "words_loop p word words past =
     (past \<or> fst (words_loop p word [] False), prepend words (snd (words_loop p word [] False)))"
proof (induction "length p" arbitrary: p word words past rule: less_induct)
  case less
  show ?case
  proof (cases p)
    case Nil
    then show ?thesis by simp
  next
    case (Cons c cs)
    show ?thesis
    proof (cases "c = SP")
      case True
      obtain q r where sk: "skip_spaces cs = (q, r)" by force
      then have "length q < length p" using skip_spaces_length [OF sk] Cons by simp
      note IH = less [OF this]
      show ?thesis
        using Cons True sk IH [of "[]" "words @ [word]" "past \<or> r"] IH [of "[]" "[word]" r]
          IH [of word words "past \<or> r"] IH [of word "[]" r]
        by auto
    next
      case nsp: False
      show ?thesis
      proof (cases "c = DQ")
        case True
        show ?thesis
        proof (cases "quoted cs word")
          case (Inl e)
          then show ?thesis using Cons nsp True by simp
        next
          case (Inr wp)
          obtain w q where wp: "wp = (w, q)" by force
          have "length (tl q) < length p"
            using quoted_length [of cs word w q] Inr wp Cons by (cases q) auto
          note IH = less [OF this]
          show ?thesis
            using Cons nsp True Inr wp IH [of "[]" "words @ [w]" past] IH [of "[]" "[w]" False]
            by auto
        qed
      next
        case False
        have "length cs < length p" using Cons by simp
        note IH = less [OF this]
        show ?thesis
          using Cons nsp False IH [of "word @ [c]" words past] IH [of "word @ [c]" "[]" False]
          by auto
      qed
    qed
  qed
qed

lemma command_words_tokens: "command_words cmdline = tokens cmdline []"
  by (simp add: command_words_def tokens_def)

lemma snd_words_loop: "snd (words_loop p word words past) = prepend words (tokens p word)"
  using words_loop_acc [of p word words past] by (simp add: tokens_def)

lemma tokens_Nil: "tokens [] word = Inr (if word \<noteq> [] then [word] else [])"
  by (simp add: tokens_def)

lemma tokens_space:
  "tokens (SP # cs) word =
     prepend (if word \<noteq> [] then [word] else []) (tokens (fst (skip_spaces cs)) [])"
  by (cases "skip_spaces cs") (simp add: tokens_def [of "SP # cs"] snd_words_loop)

lemma tokens_quote:
  "tokens (DQ # cs) word =
     (case quoted cs word of
        Inl e \<Rightarrow> Inl e
      | Inr (w, p) \<Rightarrow> prepend [w] (tokens (tl p) []))"
  by (simp add: tokens_def [of "DQ # cs"] snd_words_loop split: sum.splits)

lemma tokens_char: "c \<noteq> SP \<Longrightarrow> c \<noteq> DQ \<Longrightarrow> tokens (c # cs) word = tokens cs (word @ [c])"
  by (simp add: tokens_def)

lemma tokens_plain:
  "SP \<notin> set t \<Longrightarrow> DQ \<notin> set t \<Longrightarrow> tokens (t @ rest) word = tokens rest (word @ t)"
  by (induction t arbitrary: word) (auto simp: tokens_char)

subsection \<open>The loop and the quoting state\<close>

text \<open>
  Each of the three loops moves the scan of the specification as the characters it
  consumes do, so the loop ends in a failure exactly where the scan ends inside a quoted
  region.
\<close>

lemma skip_spaces_state: "foldl qstep Outside (fst (skip_spaces cs)) = foldl qstep Outside cs"
  by (induction cs) auto

lemma quoted_state:
  "(case quoted cs word of
      Inl e \<Rightarrow> outcome_for (foldl qstep InQuote cs) (Inl e)
    | Inr (w, p) \<Rightarrow> p \<noteq> [] \<and> hd p = DQ \<and> foldl qstep InQuote cs = foldl qstep Outside (tl p))"
proof (induction "length cs" arbitrary: cs word rule: less_induct)
  case less
  show ?case
  proof (cases cs)
    case Nil
    then show ?thesis by simp
  next
    case (Cons c ds)
    show ?thesis
    proof (cases "c = BS")
      case True
      show ?thesis
      proof (cases ds)
        case Nil
        then show ?thesis using Cons True by simp
      next
        case (Cons d es)
        then show ?thesis
          using less [of es "word @ [d]"] \<open>cs = c # ds\<close> True
          by (auto split: sum.splits)
      qed
    next
      case False
      then show ?thesis
        using less [of ds "word @ [c]"] Cons by (auto split: sum.splits)
    qed
  qed
qed

lemma outcome_for_prepend: "outcome_for st r \<Longrightarrow> outcome_for st (prepend ws r)"
  by (cases st; cases r) auto

lemma tokens_state: "outcome_for (foldl qstep Outside p) (tokens p word)"
proof (induction "length p" arbitrary: p word rule: less_induct)
  case less
  show ?case
  proof (cases p)
    case Nil
    then show ?thesis by (simp add: tokens_Nil)
  next
    case (Cons c cs)
    consider "c = SP" | "c = DQ" | "c \<noteq> SP" "c \<noteq> DQ" by blast
    then show ?thesis
    proof cases
      case 1
      obtain q r where sk: "skip_spaces cs = (q, r)" by force
      have "outcome_for (foldl qstep Outside q) (tokens q [])"
        using less [of q "[]"] skip_spaces_length [OF sk] Cons by simp
      then show ?thesis
        using Cons 1 sk skip_spaces_state [of cs]
        by (simp add: tokens_space outcome_for_prepend)
    next
      case 2
      show ?thesis
      proof (cases "quoted cs word")
        case (Inl e)
        then show ?thesis
          using quoted_state [of cs word] Cons 2 by (simp add: tokens_quote)
      next
        case (Inr wp)
        obtain w q where wp: "wp = (w, q)" by force
        have q: "q \<noteq> []" "hd q = DQ" "foldl qstep InQuote cs = foldl qstep Outside (tl q)"
          using quoted_state [of cs word] Inr wp by auto
        have "length (tl q) < length p"
          using quoted_length [of cs word w q] Inr wp Cons q by (cases q) auto
        then have "outcome_for (foldl qstep Outside (tl q)) (tokens (tl q) [])"
          using less [of "tl q" "[]"] by simp
        then show ?thesis
          using Cons 2 Inr wp q by (simp add: tokens_quote outcome_for_prepend)
      qed
    next
      case 3
      then show ?thesis
        using less [of cs "word @ [c]"] Cons by (simp add: tokens_char)
    qed
  qed
qed

lemma command_words_state: "outcome_for (quote_state cmdline) (command_words cmdline)"
  by (simp add: quote_state_def command_words_tokens tokens_state)

subsection \<open>Reads past the end\<close>

lemma fst_words_loop: "fst (words_loop p word words past) = (past \<or> fst (words_loop p word [] False))"
  using words_loop_acc [of p word words past] by simp

lemma skip_spaces_snoc:
  "skip_spaces (cs @ [SP]) =
     (if fst (skip_spaces cs) = [] then ([], True) else (fst (skip_spaces cs) @ [SP], False))"
  by (induction cs) auto

lemma quoted_append:
  "quoted cs word = Inr (w, p) \<Longrightarrow> quoted (cs @ xs) word = Inr (w, p @ xs)"
proof (induction "length cs" arbitrary: cs word rule: less_induct)
  case less
  show ?case
  proof (cases cs)
    case Nil
    then show ?thesis using less.prems by simp
  next
    case (Cons c ds)
    show ?thesis
    proof (cases "c = BS")
      case True
      then obtain d es where ds: "ds = d # es"
        using less.prems Cons by (cases ds) auto
      then have "quoted es (word @ [d]) = Inr (w, p)"
        using less.prems Cons True by simp
      then have "quoted (es @ xs) (word @ [d]) = Inr (w, p @ xs)"
        using less.hyps [of es "word @ [d]"] Cons ds by simp
      then show ?thesis using Cons True ds by simp
    next
      case False
      show ?thesis
      proof (cases "c = DQ")
        case True
        then show ?thesis using less.prems Cons False by auto
      next
        case nq: False
        then have "quoted ds (word @ [c]) = Inr (w, p)"
          using less.prems Cons False by simp
        then have "quoted (ds @ xs) (word @ [c]) = Inr (w, p @ xs)"
          using less.hyps [of ds "word @ [c]"] Cons by simp
        then show ?thesis using Cons False nq by simp
      qed
    qed
  qed
qed

lemma past_end_after_space:
  "foldl qstep Outside s = Outside \<Longrightarrow> fst (words_loop (s @ [SP]) word words past)"
proof (induction "length s" arbitrary: s word words past rule: less_induct)
  case less
  show ?case
  proof (cases s)
    case Nil
    then show ?thesis by simp
  next
    case (Cons c cs)
    consider "c = SP" | "c = DQ" | "c \<noteq> SP" "c \<noteq> DQ" by blast
    then show ?thesis
    proof cases
      case 1
      obtain q r where sk: "skip_spaces cs = (q, r)" by force
      show ?thesis
      proof (cases "q = []")
        case True
        then show ?thesis
          using Cons 1 sk skip_spaces_snoc [of cs] fst_words_loop [of "[]" _ _ "past \<or> True"]
          by simp
      next
        case False
        have "length q < length s" using skip_spaces_length [OF sk] Cons by simp
        moreover have "foldl qstep Outside q = Outside"
          using skip_spaces_state [of cs] sk less.prems Cons 1 by simp
        ultimately have "fst (words_loop (q @ [SP]) w' ws' pa')" for w' ws' pa'
          using less.hyps by blast
        then show ?thesis
          using Cons 1 sk False skip_spaces_snoc [of cs] by simp
      qed
    next
      case 2
      have st: "foldl qstep InQuote cs = Outside" using less.prems Cons 2 by simp
      show ?thesis
      proof (cases "quoted cs word")
        case (Inl e)
        then show ?thesis using quoted_state [of cs word] st by auto
      next
        case (Inr wp)
        obtain w q where wp: "wp = (w, q)" by force
        have q: "q \<noteq> []" "hd q = DQ" "foldl qstep Outside (tl q) = Outside"
          using quoted_state [of cs word] Inr wp st by auto
        have "length (tl q) < length s"
          using quoted_length [of cs word w q] Inr wp Cons q by (cases q) auto
        then have "fst (words_loop (tl q @ [SP]) w' ws' pa')" for w' ws' pa'
          using less.hyps q by blast
        moreover have "quoted (cs @ [SP]) word = Inr (w, q @ [SP])"
          using quoted_append Inr wp by simp
        ultimately show ?thesis
          using Cons 2 q by simp
      qed
    next
      case 3
      have "fst (words_loop (cs @ [SP]) w' ws' pa')" for w' ws' pa'
        using less.hyps [of cs] less.prems Cons 3 by simp
      then show ?thesis using Cons 3 by simp
    qed
  qed
qed

lemma command_words_past_end_space:
  "quote_state s = Outside \<Longrightarrow> command_words_past_end (s @ [SP])"
  by (simp add: quote_state_def command_words_past_end_def past_end_after_space)

text \<open>
  Claim C10 says that the tokenizer reads only positions inside the command line, also
  when the line ends in spaces, so that the branch of the space-skipping loop where the
  position is the end cannot be reached. On \<open>echo a \<close> the loop
  \<open>do { p++; } while (*p == ' ');\<close> moves \<open>p\<close> to the end after the last space and then
  tests \<open>*p\<close>: the branch is reached. The words are the expected ones, since the byte
  read there is the terminating NUL. The lemma before shows the same for every line
  that ends in a space outside quotes.
\<close>

theorem command_words_reads_past_end:
  "command_words_past_end ''echo a '' \<and> command_words ''echo a '' = Inr [''echo'', ''a'']"
  by (simp add: command_words_past_end_def command_words_def SP_def DQ_def)

subsection \<open>Closing quotes\<close>

lemma quoted_unescape:
  "unescape r = Some q \<Longrightarrow> quoted (r @ DQ # rest) word = Inr (word @ q, DQ # rest)"
proof (induction "length r" arbitrary: r q word rule: less_induct)
  case less
  show ?case
  proof (cases r)
    case Nil
    then show ?thesis using less.prems by simp
  next
    case (Cons c cs)
    show ?thesis
    proof (cases "c = BS")
      case True
      then obtain d ds q' where cs: "cs = d # ds" and q': "unescape ds = Some q'" and q: "q = d # q'"
        using less.prems Cons by (cases cs) auto
      have "quoted (ds @ DQ # rest) (word @ [d]) = Inr ((word @ [d]) @ q', DQ # rest)"
        using less.hyps [of ds q' "word @ [d]"] q' cs Cons by simp
      then show ?thesis using Cons True cs q by simp
    next
      case False
      then obtain q' where q': "unescape cs = Some q'" and q: "q = c # q'" and ndq: "c \<noteq> DQ"
        using less.prems Cons by (auto split: if_splits)
      have "quoted (cs @ DQ # rest) (word @ [c]) = Inr ((word @ [c]) @ q', DQ # rest)"
        using less.hyps [of cs q' "word @ [c]"] q' Cons by simp
      then show ?thesis using Cons False ndq q by simp
    qed
  qed
qed

text \<open>
  Claim C4 says that a closing quote emits the current token and that a quoted segment
  is never joined with unquoted characters next to it, so that \<open>a"b"c\<close> gives a token of
  its own at each quote. The code starts no new token at the opening quote: \<open>a"b"c\<close>
  gives the two words \<open>ab\<close> and \<open>c\<close>, the first of which joins the unquoted \<open>a\<close> with
  the quoted \<open>b\<close>.
\<close>

theorem quoted_segment_joins_prefix:
  \<open>command_words ''a"b"c'' = Inr [''ab'', ''c''] \<and>
   command_words ''a"b"c'' \<noteq> Inr [''a'', ''b'', ''c'']\<close>
  by (simp add: command_words_def SP_def DQ_def BS_def)

text \<open>
  Claim C4 as amended: wherever the loop meets an opening quote, with \<open>word\<close> pending,
  and the region closes, the closing quote pushes one token, made of the pending
  characters and the content of the region, and the loop goes on behind the quote with
  no character pending. So the characters behind a closing quote are never part of the
  token of the region, and the unquoted characters directly before the opening quote
  always are.
\<close>

theorem closing_quote_emits_token:
  "unescape region = Some content \<Longrightarrow>
   words_loop (DQ # region @ DQ # rest) word words past
     = words_loop rest [] (words @ [word @ content]) past \<and>
   (SP \<notin> set pre \<and> DQ \<notin> set pre \<longrightarrow>
      command_words (pre @ DQ # region @ DQ # rest)
        = prepend [pre @ content] (command_words rest))"
  using quoted_unescape [of region content rest]
  by (simp add: command_words_tokens tokens_plain tokens_quote)

theorem closing_quote_emits_token_witness:
  \<open>unescape ''b'' = Some ''b'' \<and>
   words_loop (DQ # ''b'' @ DQ # ''c'') ''a'' [] False = words_loop ''c'' [] [''ab''] False \<and>
   SP \<notin> set ''a'' \<and> DQ \<notin> set ''a'' \<and>
   command_words (''a'' @ DQ # ''b'' @ DQ # ''c'') = Inr [''ab'', ''c'']\<close>
proof -
  have u: "unescape ''b'' = Some ''b''"
    by (simp add: BS_def DQ_def)
  have c: "command_words ''c'' = Inr [''c'']"
    by (simp add: command_words_def SP_def DQ_def)
  show ?thesis
    using u c closing_quote_emits_token [OF u, of "''c''" "''a''" "[]" False "''a''"]
    by (simp add: SP_def DQ_def)
qed

subsection \<open>Joining and splitting again\<close>

lemma skip_spaces_nonspace: "p \<noteq> [] \<Longrightarrow> hd p \<noteq> SP \<Longrightarrow> skip_spaces p = (p, False)"
  by (cases p) auto

lemma join_hd: "list_all plain_word (t # ts) \<Longrightarrow> join [SP] (t # ts) \<noteq> [] \<and> hd (join [SP] (t # ts)) \<noteq> SP"
  by (cases ts; cases t) (auto simp: plain_word_def)

lemma tokens_join: "list_all plain_word ts \<Longrightarrow> tokens (join [SP] ts) [] = Inr ts"
proof (induction ts)
  case Nil
  then show ?case by (simp add: tokens_Nil)
next
  case (Cons x ts)
  then have x: "x \<noteq> []" "SP \<notin> set x" "DQ \<notin> set x"
    by (simp_all add: plain_word_def)
  show ?case
  proof (cases ts)
    case Nil
    then show ?thesis
      using x tokens_plain [of x "[]" "[]"] by (simp add: tokens_Nil)
  next
    case (Cons y ys)
    have "tokens (join [SP] (x # y # ys)) [] = tokens (SP # join [SP] (y # ys)) x"
      using x tokens_plain [of x "SP # join [SP] (y # ys)" "[]"] by simp
    also have "\<dots> = prepend [x] (tokens (join [SP] (y # ys)) [])"
      using Cons.prems Cons x join_hd [of y ys] skip_spaces_nonspace [of "join [SP] (y # ys)"]
      by (simp add: tokens_space)
    also have "\<dots> = Inr (x # y # ys)"
      using Cons.IH Cons.prems Cons by simp
    finally show ?thesis using Cons by simp
  qed
qed

text \<open>
  Claim C8 says that for a command line with balanced quoting whose tokens hold no
  character that needs escaping or quoting, joining the tokens with single spaces and
  tokenizing again gives the same tokens. The line of two quotes gives one token, the
  empty one, which holds no character at all; joined, it is the empty line, which gives
  no token.
\<close>

theorem retokenize_loses_empty_token:
  "command_words [DQ, DQ] = Inr [[]] \<and>
   command_words (join '' '' [[]]) = Inr [] \<and>
   command_words (join '' '' [[]]) \<noteq> command_words [DQ, DQ]"
  by (simp add: command_words_def SP_def DQ_def BS_def)

text \<open>
  Claim C8 as amended: for a command line with balanced quoting whose tokens are not
  empty and hold neither a space nor a double quote, joining the tokens with single
  spaces and tokenizing again gives the same tokens.
\<close>

theorem command_words_join_idempotent:
  assumes "command_words cmdline = Inr ts" and "list_all plain_word ts"
  shows "command_words (join '' '' ts) = command_words cmdline"
proof -
  have "join '' '' ts = join [SP] ts"
    by (simp add: SP_def)
  then show ?thesis
    using assms tokens_join [of ts] by (simp add: command_words_tokens)
qed

theorem command_words_join_idempotent_witness:
  \<open>command_words ''echo  a "b" c'' = Inr [''echo'', ''a'', ''b'', ''c''] \<and>
   list_all plain_word [''echo'', ''a'', ''b'', ''c''] \<and>
   join '' '' [''echo'', ''a'', ''b'', ''c''] = ''echo a b c'' \<and>
   command_words ''echo a b c'' = command_words ''echo  a "b" c''\<close>
proof -
  have c: \<open>command_words ''echo  a "b" c'' = Inr [''echo'', ''a'', ''b'', ''c'']\<close>
    by (simp add: command_words_def SP_def DQ_def BS_def)
  have p: \<open>list_all plain_word [''echo'', ''a'', ''b'', ''c'']\<close>
    by (simp add: plain_word_def SP_def DQ_def)
  show ?thesis
    using c p command_words_join_idempotent [OF c p] by simp
qed

subsection \<open>Failures\<close>

lemma system_tokenizer_failure:
  "command_words cmdline = Inl e \<Longrightarrow>
   system env cmdline cancel w = Some (None, writeLine (''Error: '' @ what e) w)"
  using command_words_state [of cmdline]
  by (cases "quote_state cmdline") (auto simp: system_def system_try_def)

text \<open>
  Claim C5: tokenization fails exactly when the end of the input is reached inside a
  quoted region, with the message \<open>Premature end of quoted string\<close>, or directly behind
  a backslash inside a quoted region, with the message
  \<open>Premature end of escaped character\<close>; a failure is returned in place of the words,
  so no words come with it; and the dispatcher answers such a line with the one line
  \<open>Error: \<close> and the message, and nothing else.
\<close>

theorem command_words_fails_iff:
  "(command_words cmdline = Inl (FormatException ''Premature end of quoted string''))
      = (quote_state cmdline = InQuote) \<and>
   (command_words cmdline = Inl (FormatException ''Premature end of escaped character''))
      = (quote_state cmdline = InEscape) \<and>
   (\<exists>ws. command_words cmdline = Inr ws) = (quote_state cmdline = Outside) \<and>
   (quote_state cmdline = InQuote \<longrightarrow>
      system env cmdline cancel w
        = Some (None, writeLine ''Error: Premature end of quoted string'' w)) \<and>
   (quote_state cmdline = InEscape \<longrightarrow>
      system env cmdline cancel w
        = Some (None, writeLine ''Error: Premature end of escaped character'' w))"
proof -
  have st: "outcome_for (quote_state cmdline) (command_words cmdline)"
    by (rule command_words_state)
  have 1: "(command_words cmdline = Inl (FormatException ''Premature end of quoted string''))
      = (quote_state cmdline = InQuote)"
    using st by (cases "quote_state cmdline") auto
  have 2: "(command_words cmdline = Inl (FormatException ''Premature end of escaped character''))
      = (quote_state cmdline = InEscape)"
    using st by (cases "quote_state cmdline") auto
  have 3: "(\<exists>ws. command_words cmdline = Inr ws) = (quote_state cmdline = Outside)"
    using st by (cases "quote_state cmdline") auto
  have 4: "system env cmdline cancel w
        = Some (None, writeLine ''Error: Premature end of quoted string'' w)"
    if "quote_state cmdline = InQuote"
    using that 1 system_tokenizer_failure [of cmdline _ env cancel w] by simp
  have 5: "system env cmdline cancel w
        = Some (None, writeLine ''Error: Premature end of escaped character'' w)"
    if "quote_state cmdline = InEscape"
    using that 2 system_tokenizer_failure [of cmdline _ env cancel w] by simp
  show ?thesis using 1 2 3 4 5 by blast
qed

theorem command_words_fails_iff_witness:
  \<open>quote_state ''get "http://x'' = InQuote \<and>
   command_words ''get "http://x'' = Inl (FormatException ''Premature end of quoted string'') \<and>
   system env0 ''get "http://x'' [] w0
     = Some (None, \<lparr>out = [Line ''Error: Premature end of quoted string''], calls = [],
                     listeners = [], aux_log = 0\<rparr>)\<close>
proof -
  have q: \<open>quote_state ''get "http://x'' = InQuote\<close>
    by (simp add: quote_state_def DQ_def BS_def)
  show ?thesis
    using q command_words_fails_iff [of \<open>''get "http://x''\<close> env0 "[]" w0]
    by (simp add: writeLine_def w0_def)
qed

section \<open>Properties of the argument splitter\<close>

text \<open>
  Claim C6: scanning the arguments from left to right, the splitter appends everything
  behind the first \<open>--\<close> to the positionals as it is, without the \<open>--\<close> and without
  looking for flags there; before the \<open>--\<close> an argument that is a recognized name sets
  that flag to true and is no positional, and every other argument is a positional;
  the positionals keep their order, and a flag may stand anywhere before the \<open>--\<close>.
\<close>

theorem parse_options_spec:
  "parse_options args names =
     ((\<lambda>k. if k \<in> set (before_terminator args) \<and> k \<in> set names then Some True else None),
      filter (\<lambda>a. a \<notin> set names) (before_terminator args) @ after_terminator args)"
proof -
  have loop: "parse_options_loop args names options positionals =
     ((\<lambda>k. if k \<in> set (before_terminator args) \<and> k \<in> set names then Some True else options k),
      positionals @ filter (\<lambda>a. a \<notin> set names) (before_terminator args) @ after_terminator args)"
    for options positionals
  proof (induction args arbitrary: options positionals)
    case Nil
    then show ?case by (simp add: before_terminator_def after_terminator_def)
  next
    case (Cons a args)
    show ?case
    proof (cases "a = ''--''")
      case True
      then show ?thesis by (simp add: before_terminator_def after_terminator_def)
    next
      case False
      have b: "before_terminator (a # args) = a # before_terminator args"
        and c: "after_terminator (a # args) = after_terminator args"
        using False by (simp_all add: before_terminator_def after_terminator_def)
      show ?thesis
        using False by (auto simp: Cons.IH b c fun_eq_iff)
    qed
  qed
  show ?thesis
    by (simp add: parse_options_def loop)
qed

theorem parse_options_spec_witness:
  "before_terminator [''-v'', ''a'', ''--'', ''-v'', ''b''] = [''-v'', ''a''] \<and>
   after_terminator [''-v'', ''a'', ''--'', ''-v'', ''b''] = [''-v'', ''b''] \<and>
   snd (parse_options [''-v'', ''a'', ''--'', ''-v'', ''b''] [''-v'']) = [''a'', ''-v'', ''b''] \<and>
   fst (parse_options [''-v'', ''a'', ''--'', ''-v'', ''b''] [''-v'']) ''-v'' = Some True \<and>
   fst (parse_options [''a'', ''--'', ''-v''] [''-v'']) ''-v'' = None"
  using parse_options_spec [of "[''-v'', ''a'', ''--'', ''-v'', ''b'']" "[''-v'']"]
    parse_options_spec [of "[''a'', ''--'', ''-v'']" "[''-v'']"]
  by (simp add: before_terminator_def after_terminator_def)

section \<open>Properties of the handlers\<close>

subsection \<open>Usage lines\<close>

text \<open>
  Claim C7: \<open>nslookup\<close> and \<open>get\<close> called with a number of arguments other than one, and
  \<open>helo\<close> called with a number of positionals other than one once \<open>-v\<close> is taken out,
  write their usage line and nothing else, call no collaborator, and return normally.
\<close>

theorem usage_on_wrong_count:
  "(length argv \<noteq> 1 \<longrightarrow>
      nslookup env argv cancel w = Some (None, writeLine ''Usage: nslookup NAME'' w) \<and>
      get env argv cancel w = Some (None, writeLine ''Usage: get URL'' w)) \<and>
   (length (snd (parse_options argv [''-v''])) \<noteq> 1 \<longrightarrow>
      helo env argv cancel w = Some (None, writeLine ''Usage: helo [-v] HOST'' w)) \<and>
   calls (writeLine text w) = calls w \<and>
   out (writeLine text w) = out w @ [Line text]"
proof -
  have n: "nslookup env argv cancel w = Some (None, writeLine ''Usage: nslookup NAME'' w)"
    if "length argv \<noteq> 1"
    using that by (simp add: nslookup_def)
  have g: "get env argv cancel w = Some (None, writeLine ''Usage: get URL'' w)"
    if "length argv \<noteq> 1"
    using that by (simp add: get_def)
  have h: "helo env argv cancel w = Some (None, writeLine ''Usage: helo [-v] HOST'' w)"
    if "length (snd (parse_options argv [''-v''])) \<noteq> 1"
    using that by (cases "parse_options argv [''-v'']") (simp add: helo_def)
  have c: "calls (writeLine text w) = calls w" and o: "out (writeLine text w) = out w @ [Line text]"
    by (simp_all add: writeLine_def)
  show ?thesis
    using n g h c o by blast
qed

theorem usage_on_wrong_count_witness:
  "length [''a'', ''b''] \<noteq> 1 \<and>
   nslookup env0 [''a'', ''b''] [] w0
     = Some (None, \<lparr>out = [Line ''Usage: nslookup NAME''], calls = [], listeners = [], aux_log = 0\<rparr>) \<and>
   get env0 [''a'', ''b''] [] w0
     = Some (None, \<lparr>out = [Line ''Usage: get URL''], calls = [], listeners = [], aux_log = 0\<rparr>) \<and>
   length (snd (parse_options [''-v''] [''-v''])) \<noteq> 1 \<and>
   helo env0 [''-v''] [] w0
     = Some (None, \<lparr>out = [Line ''Usage: helo [-v] HOST''], calls = [], listeners = [], aux_log = 0\<rparr>)"
proof -
  have p: "length (snd (parse_options [''-v''] [''-v''])) \<noteq> 1"
    by (simp add: parse_options_def)
  show ?thesis
    using p usage_on_wrong_count [of "[''a'', ''b'']" env0 "[]" w0]
      usage_on_wrong_count [of "[''-v'']" env0 "[]" w0]
    by (simp add: writeLine_def w0_def)
qed

subsection \<open>Error lines\<close>

text \<open>
  Claim C9 says that every error of a command, the failed fetch of \<open>get\<close> among them, is
  written as one line, by a line-oriented write, that starts with \<open>Error: \<close>. When
  \<open>http::get\<close> throws, \<open>get\<close> writes the text with \<open>writeStringF\<close>: the stream receives
  \<open>Error: \<close> and the message as raw bytes, and no line terminator.
\<close>

theorem get_error_is_raw:
  "http_get env0 ''http://x'' = Inl (GeneralException ''connection refused'') \<and>
   get env0 [''http://x''] [] w0
     = Some (None, \<lparr>out = [Raw ''Error: connection refused''], calls = [HttpGet ''http://x''],
                     listeners = [], aux_log = 0\<rparr>) \<and>
   system env0 ''get http://x'' [] w0
     = Some (None, \<lparr>out = [Raw ''Error: connection refused''], calls = [HttpGet ''http://x''],
                     listeners = [], aux_log = 0\<rparr>)"
  by (simp add: system_def system_try_def command_words_def SP_def DQ_def get_def env0_def w0_def
      writeString_def called_def)

subsection \<open>The dispatcher\<close>






subsection \<open>The listener of \<open>log\<close>\<close>

lemma drain_frame:
  "drain f queue w = (r, queue', w') \<Longrightarrow>
   listeners w' = listeners w \<and> aux_log w' = aux_log w \<and> calls w' = calls w"
proof (induction queue arbitrary: f w)
  case Nil
  then show ?case by auto
next
  case (Cons chunk queue)
  show ?case
  proof (cases f)
    case None
    then show ?thesis
      using Cons.prems Cons.IH [of None "writeString chunk w"] by (simp add: writeString_def)
  next
    case (Some ke)
    obtain k e where ke: "ke = (k, e)" by force
    show ?thesis
    proof (cases k)
      case 0
      then show ?thesis using Cons.prems Some ke by auto
    next
      case (Suc j)
      then show ?thesis
        using Cons.prems Some ke Cons.IH [of "Some (j, e)" "writeString chunk w"]
        by (simp add: writeString_def)
    qed
  qed
qed

lemma drain_all: "drain None queue w = (None, [], w\<lparr>out := out w @ map Raw queue\<rparr>)"
  by (induction queue arbitrary: w) (simp_all add: writeString_def)

lemma drain_refused:
  "drain (Some (k, e)) queue w =
     (if k < length queue then (Some e, drop k queue, w\<lparr>out := out w @ map Raw (take k queue)\<rparr>)
      else (None, [], w\<lparr>out := out w @ map Raw queue\<rparr>))"
proof (induction queue arbitrary: k w)
  case Nil
  then show ?case by simp
next
  case (Cons chunk queue)
  then show ?case
    by (cases k) (simp_all add: writeString_def)
qed

text \<open>
  The drain of a tick that starts with an empty queue: whether it throws, and what it
  brings to the stream.
\<close>

lemma drain_tick:
  "\<exists>queue'. drain (write_fails t) (map (callback env) (pushed t)) w
     = (write_raises t, queue',
        w\<lparr>out := out w @ map Raw (case write_fails t of
                                     None \<Rightarrow> map (callback env) (pushed t)
                                   | Some (k, e) \<Rightarrow> take k (map (callback env) (pushed t)))\<rparr>)"
proof (cases "write_fails t")
  case None
  then show ?thesis by (simp add: drain_all write_raises_def)
next
  case (Some ke)
  then show ?thesis
    by (cases ke) (simp add: drain_refused write_raises_def)
qed

lemma drain_tick_continues:
  "write_raises t = None \<Longrightarrow>
   drain (write_fails t) (map (callback env) (pushed t)) w
     = (None, [], w\<lparr>out := out w @ map Raw (map (callback env) (pushed t))\<rparr>)"
proof (cases "write_fails t")
  case None
  then show ?thesis by (simp add: drain_all)
next
  case (Some ke)
  assume "write_raises t = None"
  then show ?thesis
    using Some by (cases ke) (simp add: drain_refused write_raises_def split: if_splits)
qed

lemma log_loop_continues:
  "list_all continues pre \<Longrightarrow>
   log_loop env (pre @ rest) [] w =
     log_loop env rest []
       (w\<lparr>out := out w @ map Raw (map (callback env) (concat (map pushed pre))),
          calls := calls w @ replicate (length pre) (Sleep 100)\<rparr>)"
proof (induction pre arbitrary: w)
  case Nil
  then show ?case by simp
next
  case (Cons t pre)
  then show ?case
    by (simp add: continues_def drain_tick_continues called_def replicate_append_same)
qed

lemma log_loop_exit:
  assumes "\<not> continues t"
  shows "\<exists>queue w'. log_loop env (t # post) [] w = Some (loop_exit t, queue, w') \<and>
           out w' = out w @ map Raw (last_drain env t) \<and>
           listeners w' = listeners w \<and>
           filter is_listener_call (calls w') = filter is_listener_call (calls w)"
proof (cases "cancel_result t")
  case (Inl e)
  then show ?thesis by (simp add: loop_exit_def last_drain_def)
next
  case (Inr b)
  show ?thesis
  proof (cases b)
    case True
    then show ?thesis using Inr by (simp add: loop_exit_def last_drain_def)
  next
    case False
    obtain queue' where d: "drain (write_fails t) (map (callback env) (pushed t)) w
       = (write_raises t, queue', w\<lparr>out := out w @ map Raw (last_drain env t)\<rparr>)"
      using drain_tick [of t env w] Inr False by (auto simp: last_drain_def)
    show ?thesis
    proof (cases "write_raises t")
      case (Some e)
      then show ?thesis using Inr False d by (simp add: loop_exit_def)
    next
      case None
      then obtain e where "sleep_result t = Some e"
        using assms Inr False by (auto simp: continues_def)
      then show ?thesis using Inr False d None by (simp add: loop_exit_def called_def)
    qed
  qed
qed

lemma first_exit:
  "\<exists>t \<in> set cancel. \<not> continues t \<Longrightarrow>
   \<exists>pre t post. cancel = pre @ t # post \<and> list_all continues pre \<and> \<not> continues t"
proof -
  assume "\<exists>t \<in> set cancel. \<not> continues t"
  then obtain pre t post where "cancel = pre @ t # post" "\<not> continues t"
    "\<forall>u \<in> set pre. \<not> \<not> continues u"
    using split_list_first_prop [of cancel "\<lambda>t. \<not> continues t"] by blast
  then show ?thesis by (auto simp: list_all_iff)
qed

lemma fresh_not_in: "fresh ids \<notin> set ids"
proof
  assume "fresh ids \<in> set ids"
  moreover have "x \<in> set ids \<Longrightarrow> x \<le> foldr max ids 0" for x
    by (induction ids) auto
  ultimately have "fresh ids \<le> foldr max ids 0" by blast
  then show False by (simp add: fresh_def)
qed


text \<open>
  The handler on a schedule whose first tick that does not go on is \<open>t\<close>: how it returns,
  what it has written, and what it has done to the event source.
\<close>

lemma log_exit:
  assumes "list_all continues pre" and "\<not> continues t"
  shows "\<exists>w'. log env argv (pre @ t # post) w = Some (loop_exit t, w') \<and>
           out w' = out w @ map Raw (map (callback env) (concat (map pushed pre)) @ last_drain env t) \<and>
           listeners w' = listeners w \<and>
           filter is_listener_call (calls w') =
             filter is_listener_call (calls w) @
               [AddListener (fresh (listeners w)), RemoveListener (fresh (listeners w))]"
proof -
  define w1 where "w1 = snd (addListener w)"
  define w2 where "w2 = w1\<lparr>out := out w1 @ map Raw (map (callback env) (concat (map pushed pre))),
          calls := calls w1 @ replicate (length pre) (Sleep 100)\<rparr>"
  have "log_loop env (pre @ t # post) [] w1 = log_loop env (t # post) [] w2"
    using log_loop_continues [OF assms(1)] by (simp add: w2_def)
  moreover obtain queue w3 where ex: "log_loop env (t # post) [] w2 = Some (loop_exit t, queue, w3)"
    and o: "out w3 = out w2 @ map Raw (last_drain env t)"
    and l: "listeners w3 = listeners w2"
    and c: "filter is_listener_call (calls w3) = filter is_listener_call (calls w2)"
    using log_loop_exit [OF assms(2), of env post w2] by blast
  ultimately have "log env argv (pre @ t # post) w
      = Some (loop_exit t, removeListener (fresh (listeners w)) w3)"
    by (simp add: log_def addListener_def w1_def)
  moreover have "out (removeListener (fresh (listeners w)) w3)
      = out w @ map Raw (map (callback env) (concat (map pushed pre)) @ last_drain env t)"
    using o by (simp add: removeListener_def called_def w2_def w1_def addListener_def)
  moreover have "listeners (removeListener (fresh (listeners w)) w3) = listeners w"
    using l fresh_not_in [of "listeners w"]
    by (simp add: removeListener_def called_def w2_def w1_def addListener_def)
  moreover have "filter is_listener_call (calls (removeListener (fresh (listeners w)) w3)) =
      filter is_listener_call (calls w) @
        [AddListener (fresh (listeners w)), RemoveListener (fresh (listeners w))]"
    using c by (simp add: removeListener_def called_def w2_def w1_def addListener_def)
  ultimately show ?thesis by blast
qed


text \<open>
  Claim C3: on every way out of the loop of \<open>log\<close>, that is when the poll has answered
  true and when the poll, a write of the drain or the sleep has thrown, the handler
  returns, the listener that it registered on entry has been removed exactly once, and
  the ids registered with the event source are the same as before the call. The
  schedule must hold a tick that ends the loop; with a schedule that holds none the
  handler is still polling.
\<close>

theorem log_removes_listener:
  assumes "\<exists>t \<in> set cancel. \<not> continues t"
  shows "\<exists>r w'. log env argv cancel w = Some (r, w') \<and> listeners w' = listeners w \<and>
           filter is_listener_call (calls w') =
             filter is_listener_call (calls w) @
               [AddListener (fresh (listeners w)), RemoveListener (fresh (listeners w))]"
proof -
  obtain pre t post where "cancel = pre @ t # post" "list_all continues pre" "\<not> continues t"
    using first_exit [OF assms] by blast
  then show ?thesis
    using log_exit [of pre t env argv post w] by blast
qed

theorem log_removes_listener_witness:
  "(\<exists>t \<in> set [tick_go, tick_refuse]. \<not> continues t) \<and>
   (\<exists>r w'. log env0 [] [tick_go, tick_refuse] w0 = Some (r, w') \<and> listeners w' = listeners w0 \<and>
      filter is_listener_call (calls w') =
        filter is_listener_call (calls w0) @
          [AddListener (fresh (listeners w0)), RemoveListener (fresh (listeners w0))]) \<and>
   log env0 [] [tick_go, tick_refuse] w0
     = Some (Some (GeneralException ''closed''),
             \<lparr>out = [Raw (''[EROR] a'' @ [LF]), Raw (''[WARN] b'' @ [LF]), Raw (''[EROR] c'' @ [LF])],
              calls = [AddListener 1, Sleep 100, RemoveListener 1], listeners = [], aux_log = 0\<rparr>) \<and>
   (\<exists>t \<in> set [tick_go, tick_throw]. \<not> continues t) \<and>
   log env0 [] [tick_go, tick_throw] w0
     = Some (Some (GeneralException ''gone''),
             \<lparr>out = [Raw (''[EROR] a'' @ [LF]), Raw (''[WARN] b'' @ [LF])],
              calls = [AddListener 1, Sleep 100, RemoveListener 1], listeners = [], aux_log = 0\<rparr>) \<and>
   (\<exists>t \<in> set [tick_wake]. \<not> continues t) \<and>
   log env0 [] [tick_wake] w0
     = Some (Some (GeneralException ''woken''),
             \<lparr>out = [Raw (''[INFO] e'' @ [LF])],
              calls = [AddListener 1, Sleep 100, RemoveListener 1], listeners = [], aux_log = 0\<rparr>) \<and>
   (\<exists>t \<in> set [tick_stop]. \<not> continues t) \<and>
   log env0 [] [tick_stop] w0
     = Some (None, \<lparr>out = [], calls = [AddListener 1, RemoveListener 1], listeners = [], aux_log = 0\<rparr>)"
proof -
  have e1: "\<exists>t \<in> set [tick_go, tick_refuse]. \<not> continues t"
    by (simp add: continues_def write_raises_def tick_refuse_def)
  have e2: "\<exists>t \<in> set [tick_go, tick_throw]. \<not> continues t"
    by (simp add: continues_def tick_throw_def)
  have e3: "\<exists>t \<in> set [tick_wake]. \<not> continues t"
    by (simp add: continues_def tick_wake_def)
  have e4: "\<exists>t \<in> set [tick_stop]. \<not> continues t"
    by (simp add: continues_def tick_stop_def)
  have v1: "log env0 [] [tick_go, tick_refuse] w0
     = Some (Some (GeneralException ''closed''),
             \<lparr>out = [Raw (''[EROR] a'' @ [LF]), Raw (''[WARN] b'' @ [LF]), Raw (''[EROR] c'' @ [LF])],
              calls = [AddListener 1, Sleep 100, RemoveListener 1], listeners = [], aux_log = 0\<rparr>)"
    by (simp add: log_def addListener_def removeListener_def fresh_def called_def writeString_def
        callback_def tick_go_def tick_refuse_def env0_def w0_def)
  have v2: "log env0 [] [tick_go, tick_throw] w0
     = Some (Some (GeneralException ''gone''),
             \<lparr>out = [Raw (''[EROR] a'' @ [LF]), Raw (''[WARN] b'' @ [LF])],
              calls = [AddListener 1, Sleep 100, RemoveListener 1], listeners = [], aux_log = 0\<rparr>)"
    by (simp add: log_def addListener_def removeListener_def fresh_def called_def writeString_def
        callback_def tick_go_def tick_throw_def env0_def w0_def)
  have v3: "log env0 [] [tick_wake] w0
     = Some (Some (GeneralException ''woken''),
             \<lparr>out = [Raw (''[INFO] e'' @ [LF])],
              calls = [AddListener 1, Sleep 100, RemoveListener 1], listeners = [], aux_log = 0\<rparr>)"
    by (simp add: log_def addListener_def removeListener_def fresh_def called_def writeString_def
        callback_def tick_wake_def env0_def w0_def)
  have v4: "log env0 [] [tick_stop] w0
     = Some (None, \<lparr>out = [], calls = [AddListener 1, RemoveListener 1], listeners = [], aux_log = 0\<rparr>)"
    by (simp add: log_def addListener_def removeListener_def fresh_def called_def
        callback_def tick_stop_def env0_def w0_def)
  show ?thesis
    using e1 e2 e3 e4 v1 v2 v3 v4 log_removes_listener [OF e1, of env0 "[]" w0]
      log_removes_listener [OF e2, of env0 "[]" w0] log_removes_listener [OF e3, of env0 "[]" w0]
      log_removes_listener [OF e4, of env0 "[]" w0]
    by simp
qed

subsection \<open>What \<open>log\<close> writes\<close>




end
